theory Spec2Isabelle
  imports Main
begin

section \<open>Selectors\<close>

text \<open>
  Modelled from the spec: the selector module (\<open>ClassSelector\<close>, \<open>WildcardSelector\<close>,
  \<open>DoubleWildcardSelector\<close>, \<open>IndexSelector\<close>, \<open>NoneSelector\<close>, \<open>parse_selectors\<close>) is
  imported by \<open>config.py\<close> but is not among the sources. The spec describes a selector path
  as an ordered sequence of segments, each an exact name, a wildcard (one segment), a
  double wildcard (zero or more segments) or an index with an optional population length;
  concatenation is associative, \<open>pop()\<close> splits a path into all-but-last and last, and the
  none selector is the empty path. A path is therefore a list of segments and
  \<open>NoneSelector()\<close> is the empty list. An index segment keeps the segment it indexes
  (\<open>head.selector\<close> in \<open>populate\<close>), the positions its index stands for and the optional
  length bound. Selector strings are taken as already parsed: \<open>parse_selectors\<close> is the
  identity on paths.
\<close>

datatype segment =
    ClassSelector string
  | WildcardSelector
  | DoubleWildcardSelector
  | IndexSelector segment "nat list" "nat option"

type_synonym selector = "segment list"

text \<open>Modelled from the spec: \<open>NoneSelector()\<close>, the empty path, and the test
  \<open>isinstance(s, NoneSelector)\<close>.\<close>

definition NoneSelector :: selector where
  "NoneSelector = []"

definition is_NoneSelector :: "selector \<Rightarrow> bool" where
  "is_NoneSelector s = (s = [])"

text \<open>Modelled from the spec: \<open>isinstance(s, IndexSelector)\<close>, a one-segment path whose
  segment is an index.\<close>

fun is_IndexSelector :: "selector \<Rightarrow> bool" where
  "is_IndexSelector [IndexSelector b ix n] = True"
| "is_IndexSelector s = False"

text \<open>Modelled from the spec: \<open>a + b\<close> on selectors, the concatenation of paths.\<close>

definition sel_add :: "selector \<Rightarrow> selector \<Rightarrow> selector" where
  "sel_add a b = a @ b"

text \<open>Modelled from the spec: \<open>s.pop()\<close>, the body and the head of a path; the none selector
  pops to two none selectors.\<close>

definition pop :: "selector \<Rightarrow> selector \<times> selector" where
  "pop s = (if s = [] then ([], []) else (butlast s, [last s]))"

text \<open>Modelled from the spec: \<open>s.key()\<close>, the name of the last segment without its index
  (the wildcards are written \<open>_\<close> and \<open>__\<close>, as \<open>Config.__getattr__\<close> reads them).\<close>

fun segment_key :: "segment \<Rightarrow> string" where
  "segment_key (ClassSelector name) = name"
| "segment_key WildcardSelector = ''_''"
| "segment_key DoubleWildcardSelector = ''__''"
| "segment_key (IndexSelector b ix n) = segment_key b"

definition selector_key :: "selector \<Rightarrow> string" where
  "selector_key s = (if s = [] then [] else segment_key (last s))"

text \<open>Modelled from the spec: \<open>head.get_list_of_indices()\<close>, the positions of an index
  segment, cut at its length bound.\<close>

fun get_list_of_indices :: "selector \<Rightarrow> nat list" where
  "get_list_of_indices [IndexSelector b ix None] = ix"
| "get_list_of_indices [IndexSelector b ix (Some n)] = filter (\<lambda>i. i < n) ix"
| "get_list_of_indices s = []"

text \<open>Modelled from the spec: \<open>s[i, length]\<close>, indexing the last segment of a path. The spec
  lists indexing with no context among the NoContext failures, so the empty path has no
  indexed form.\<close>

definition sel_getitem :: "selector \<Rightarrow> nat list \<Rightarrow> nat option \<Rightarrow> selector option" where
  "sel_getitem s ix n =
     (if s = [] then None else Some (butlast s @ [IndexSelector (last s) ix n]))"

text \<open>
  Modelled from the spec: \<open>re.match(pattern.regex(), form)\<close> for some form that iterating
  the context yields. A name matches the same name, a wildcard one segment, a double
  wildcard any number of segments, an index segment an index segment on a matching base
  that shares a position with it.
\<close>

fun segment_match :: "segment \<Rightarrow> segment \<Rightarrow> bool" where
  "segment_match (ClassSelector a) c = (c = ClassSelector a)"
| "segment_match WildcardSelector c = True"
| "segment_match DoubleWildcardSelector c = True"
| "segment_match (IndexSelector b ix n) (IndexSelector b' ix' n') =
     (segment_match b b' \<and>
      (\<exists>i \<in> set (get_list_of_indices [IndexSelector b' ix' n']).
          i \<in> set (get_list_of_indices [IndexSelector b ix n])))"
| "segment_match (IndexSelector b ix n) c = False"

fun regex_match :: "selector \<Rightarrow> selector \<Rightarrow> bool" where
  "regex_match [] [] = True"
| "regex_match (DoubleWildcardSelector # ps) [] = regex_match ps []"
| "regex_match (DoubleWildcardSelector # ps) (c # cs) =
     (regex_match ps (c # cs) \<or> regex_match (DoubleWildcardSelector # ps) cs)"
| "regex_match (p # ps) (c # cs) = (segment_match p c \<and> regex_match ps cs)"
| "regex_match [] (c # cs) = False"
| "regex_match (p # ps) [] = False"

section \<open>Values and errors\<close>

text \<open>The Python values a rule can hold or a lookup can return.\<close>

datatype pyval =
    VNone
  | VInt int
  | VStr string
  | VList "pyval list"
  | VTuple "pyval list"
  | VDict "(string \<times> pyval) list"

text \<open>
  The exceptions of \<open>config.py\<close>. The \<open>ValueError\<close> of \<open>Config.get\<close> carries the selector
  that failed (its message also prints the configuration) or the conflicting keys;
  \<open>HookNotRun\<close>, \<open>NoContext\<close> and \<open>EmptySequence\<close> (\<open>max\<close> of nothing) are \<open>ValueError\<close>s
  too. The \<open>AssertionError\<close> carries the missing indices and the key. \<open>RecursionError\<close> is what
  Python raises when a chain of references does not end.
\<close>

datatype error =
    NoKeysMatch selector
  | MultipleKeysMatch selector "string list"
  | HookNotRun
  | NoContext
  | EmptySequence
  | TypeError
  | IndexError
  | KeyError
  | AssertionError "nat list" string
  | RecursionError

text \<open>\<open>except (ValueError, TypeError)\<close> in \<open>_take_most_specific_per_key\<close>.\<close>

fun is_ValueError_or_TypeError :: "error \<Rightarrow> bool" where
  "is_ValueError_or_TypeError (NoKeysMatch s) = True"
| "is_ValueError_or_TypeError (MultipleKeysMatch s ks) = True"
| "is_ValueError_or_TypeError HookNotRun = True"
| "is_ValueError_or_TypeError NoContext = True"
| "is_ValueError_or_TypeError EmptySequence = True"
| "is_ValueError_or_TypeError TypeError = True"
| "is_ValueError_or_TypeError e = False"

text \<open>\<open>isinstance(v, (list, tuple))\<close>, \<open>len(v)\<close> and \<open>v[i]\<close> for a non-negative \<open>i\<close>.\<close>

fun is_list_or_tuple :: "pyval \<Rightarrow> bool" where
  "is_list_or_tuple (VList xs) = True"
| "is_list_or_tuple (VTuple xs) = True"
| "is_list_or_tuple v = False"

fun items :: "pyval \<Rightarrow> pyval list" where
  "items (VList xs) = xs"
| "items (VTuple xs) = xs"
| "items v = []"

fun py_getitem :: "pyval \<Rightarrow> nat \<Rightarrow> error + pyval" where
  "py_getitem (VList xs) i = (if i < length xs then Inr (xs ! i) else Inl IndexError)"
| "py_getitem (VTuple xs) i = (if i < length xs then Inr (xs ! i) else Inl IndexError)"
| "py_getitem (VStr s) i = (if i < length s then Inr (VStr [s ! i]) else Inl IndexError)"
| "py_getitem (VDict d) i = Inl KeyError"
| "py_getitem VNone i = Inl TypeError"
| "py_getitem (VInt n) i = Inl TypeError"

section \<open>ForwardHook\<close>

text \<open>
  The hook function is called with the module (and further arguments, folded into one
  value here) and may raise.
\<close>

record forward_hook =
  hook :: "pyval \<Rightarrow> error + pyval"
  first_only :: bool
  cached_value :: pyval
  has_run_flag :: bool

text \<open>\<open>ForwardHook.__init__(hook, first_only=True)\<close> for a hook function.\<close>

definition ForwardHook :: "(pyval \<Rightarrow> error + pyval) \<Rightarrow> bool \<Rightarrow> forward_hook" where
  "ForwardHook h fo =
     \<lparr>hook = h, first_only = fo, cached_value = VNone, has_run_flag = False\<rparr>"

text \<open>
  \<open>ForwardHook.__call__\<close>: the returned value and the hook object afterwards. When the
  hook function raises, nothing has been assigned.
\<close>

definition fh_call :: "forward_hook \<Rightarrow> pyval \<Rightarrow> error + (pyval \<times> forward_hook)" where
  "fh_call h x =
     (if first_only h \<and> has_run_flag h then Inr (cached_value h, h)
      else (case hook h x of
              Inl e \<Rightarrow> Inl e
            | Inr v \<Rightarrow> Inr (VNone, h\<lparr>cached_value := v, has_run_flag := True\<rparr>)))"

text \<open>\<open>ForwardHook.value()\<close> and \<open>ForwardHook.has_run()\<close>.\<close>

definition fh_value :: "forward_hook \<Rightarrow> error + pyval" where
  "fh_value h = (if \<not> has_run_flag h then Inl HookNotRun else Inr (cached_value h))"

definition fh_has_run :: "forward_hook \<Rightarrow> bool" where
  "fh_has_run h = has_run_flag h"

text \<open>A sequence of triggers, stopping at the first one that raises.\<close>

fun fh_calls :: "forward_hook \<Rightarrow> pyval list \<Rightarrow> error + forward_hook" where
  "fh_calls h [] = Inr h"
| "fh_calls h (x # xs) =
     (case fh_call h x of Inl e \<Rightarrow> Inl e | Inr (r, h') \<Rightarrow> fh_calls h' xs)"

section \<open>Rules\<close>

text \<open>
  A rule value is a literal, a \<open>Ref\<close> or a \<open>ForwardHook\<close>. Modelled from the spec: the
  class \<open>Ref\<close> is imported by \<open>config.py\<close> but is not among the sources; the spec gives a
  reference the selectors to look up (\<open>self.value.selectors\<close>) and the function applied to
  what is found (\<open>self.value(referenced_value)\<close>), which may raise.
\<close>

datatype rule_value =
    Literal pyval
  | Ref selector "pyval \<Rightarrow> error + pyval"
  | Hook forward_hook

record rule =
  selector :: selector
  head :: selector
  key :: string
  rvalue :: rule_value
  scope_root :: selector
  specificity :: int
  is_default :: bool

text \<open>\<open>ConfigRule(selector, key, value)\<close>, with the class attributes \<open>specificity = 1\<close> and
  \<open>default = False\<close>.\<close>

definition ConfigRule :: "selector \<Rightarrow> selector \<Rightarrow> rule_value \<Rightarrow> rule" where
  "ConfigRule sel k v =
     \<lparr>selector = sel, head = k, key = selector_key k, rvalue = v,
      scope_root = NoneSelector, specificity = 1, is_default = False\<rparr>"

text \<open>\<open>ConfigRuleDefault\<close>: the same constructor, class attributes \<open>specificity = 0\<close> and
  \<open>default = True\<close>.\<close>

definition ConfigRuleDefault :: "selector \<Rightarrow> selector \<Rightarrow> rule_value \<Rightarrow> rule" where
  "ConfigRuleDefault sel k v = (ConfigRule sel k v)\<lparr>specificity := 0, is_default := True\<rparr>"

text \<open>
  \<open>ConfigRuleWrapper(selector, value, default)\<close>. The constructor assigns \<open>specificity\<close> and
  \<open>default\<close> on the instance only when \<open>default\<close> is true; otherwise the attribute lookup
  finds the class attributes inherited from \<open>ConfigRule\<close> (\<open>__getattr__\<close> is consulted only
  for attributes that are not found, and these two are).
\<close>

definition ConfigRuleWrapper :: "selector \<Rightarrow> rule \<Rightarrow> bool \<Rightarrow> rule" where
  "ConfigRuleWrapper sel r dflt =
     \<lparr>selector = sel_add sel (selector r), head = head r, key = key r, rvalue = rvalue r,
      scope_root = sel_add sel (scope_root r),
      specificity = (if dflt then 0 else 1),
      is_default = (if dflt then True else False)\<rparr>"

text \<open>\<open>ConfigRule.is_more_specific_than(other)\<close>; \<open>other\<close> may be \<open>None\<close>.\<close>

definition is_more_specific_than :: "rule \<Rightarrow> rule option \<Rightarrow> bool" where
  "is_more_specific_than r other =
     (case other of
        None \<Rightarrow> True
      | Some r' \<Rightarrow>
          (if specificity r \<noteq> specificity r' then specificity r > specificity r'
           else True))"

text \<open>\<open>ConfigRule.matches(context, match_key, allow_indexed)\<close>.\<close>

definition matches :: "rule \<Rightarrow> selector \<Rightarrow> bool \<Rightarrow> bool \<Rightarrow> bool" where
  "matches r ctx match_key allow_indexed =
     (let hd_sel = (if allow_indexed then [ClassSelector (key r)] else head r);
          full_selector = (if match_key then sel_add (selector r) hd_sel else selector r)
      in if is_NoneSelector full_selector \<and> is_NoneSelector ctx then True
         else if is_NoneSelector full_selector \<or> is_NoneSelector ctx then False
         else regex_match full_selector ctx)"

section \<open>Configurations\<close>

text \<open>
  A \<open>Config\<close> has its own list of rules (\<open>__init__\<close> copies the list it is given), the
  table of named sub-configurations and the current context.
\<close>

datatype config =
  Config (rules_of: "rule list") (refs_of: "(string \<times> config) list") (context_of: selector)

text \<open>Python dictionaries keep insertion order: association lists with distinct keys.
  \<open>dict_append\<close> is \<open>if k in d: d[k].append(v) else: d[k] = [v]\<close>, \<open>dict_set\<close> is
  \<open>d[k] = v\<close>.\<close>

fun dict_append :: "'k \<Rightarrow> 'v \<Rightarrow> ('k \<times> 'v list) list \<Rightarrow> ('k \<times> 'v list) list" where
  "dict_append k v [] = [(k, [v])]"
| "dict_append k v ((k', vs) # d) =
     (if k = k' then (k', vs @ [v]) # d else (k', vs) # dict_append k v d)"

fun dict_set :: "'k \<Rightarrow> 'v \<Rightarrow> ('k \<times> 'v) list \<Rightarrow> ('k \<times> 'v) list" where
  "dict_set k v [] = [(k, v)]"
| "dict_set k v ((k', v') # d) =
     (if k = k' then (k', v) # d else (k', v') # dict_set k v d)"

text \<open>\<open>Config._get_all_matching_rules\<close>.\<close>

definition get_all_matching_rules :: "config \<Rightarrow> selector \<Rightarrow> bool \<Rightarrow> bool \<Rightarrow> rule list" where
  "get_all_matching_rules c selectors match_key allow_indexed =
     (let contextualized_selectors = sel_add (context_of c) selectors
      in filter (\<lambda>r. matches r contextualized_selectors match_key allow_indexed) (rules_of c))"

text \<open>\<open>Config._merge_rules_on_key\<close>.\<close>

definition merge_rules_on_key :: "rule list \<Rightarrow> (string \<times> rule list) list" where
  "merge_rules_on_key rs = foldl (\<lambda>merged r. dict_append (key r) r merged) [] rs"

text \<open>\<open>Config._take_most_specific_in_list\<close>; \<open>rules[0]\<close> raises on the empty list.\<close>

definition take_most_specific_in_list :: "rule list \<Rightarrow> error + rule" where
  "take_most_specific_in_list rs =
     (case rs of
        [] \<Rightarrow> Inl IndexError
      | r0 # _ \<Rightarrow>
          Inr (foldl (\<lambda>most_specific r.
                        if is_more_specific_than r (Some most_specific) then r
                        else most_specific) r0 rs))"

text \<open>
  \<open>Config._take_most_specific_per_key\<close>. The argument \<open>gv\<close> is \<open>rule.get_value\<close> (defined
  below, at the recursion depth that is left). A \<open>ValueError\<close> or \<open>TypeError\<close> drops the
  key; any other exception leaves the function.
\<close>

fun take_most_specific_per_key ::
  "(rule \<Rightarrow> config \<Rightarrow> error + pyval) \<Rightarrow> config \<Rightarrow> (string \<times> rule list) list
     \<Rightarrow> error + (string \<times> pyval) list" where
  "take_most_specific_per_key gv c [] = Inr []"
| "take_most_specific_per_key gv c ((k, rs) # d) =
     (case (case take_most_specific_in_list rs of Inl e \<Rightarrow> Inl e | Inr r \<Rightarrow> gv r c) of
        Inl e \<Rightarrow>
          (if is_ValueError_or_TypeError e then take_most_specific_per_key gv c d else Inl e)
      | Inr v \<Rightarrow>
          (case take_most_specific_per_key gv c d of
             Inl e \<Rightarrow> Inl e
           | Inr most_specific \<Rightarrow> Inr ((k, v) # most_specific)))"

subsection \<open>Indexed resolution\<close>

text \<open>The first loop over the rules of a key: \<open>(rule_if_no_indexed, any_indexed,
  indexed_values)\<close>.\<close>

fun split_indexed ::
  "rule list \<Rightarrow> rule list \<times> bool \<times> (nat \<times> rule list) list
     \<Rightarrow> rule list \<times> bool \<times> (nat \<times> rule list) list" where
  "split_indexed [] acc = acc"
| "split_indexed (r # rs) (rule_if_no_indexed, any_indexed, indexed_values) =
     (if is_IndexSelector (head r)
      then split_indexed rs
             (rule_if_no_indexed, True,
              foldl (\<lambda>d i. dict_append i r d) indexed_values (get_list_of_indices (head r)))
      else split_indexed rs (rule_if_no_indexed @ [r], any_indexed, indexed_values))"

text \<open>The placeholder used when a key has no rule without an index.\<close>

definition least_specific_rule :: rule where
  "least_specific_rule = (ConfigRule NoneSelector [] (Literal (VList [])))\<lparr>specificity := - 9999\<rparr>"

text \<open>\<open>max(r.specificity for r in rules)\<close>; \<open>max\<close> of nothing raises a \<open>ValueError\<close>.\<close>

definition max_specificity :: "rule list \<Rightarrow> error + int" where
  "max_specificity rs =
     (case rs of [] \<Rightarrow> Inl EmptySequence | r # rs' \<Rightarrow> Inr (foldl max (specificity r) (map specificity rs')))"

text \<open>The loop \<open>for idx, value in enumerate(value_if_no_indexed)\<close>, over the positions
  \<open>idxs\<close>.\<close>

fun fill_missing ::
  "rule \<Rightarrow> nat list \<Rightarrow> (nat \<times> rule list) list \<Rightarrow> error + (nat \<times> rule list) list" where
  "fill_missing w [] indexed_values = Inr indexed_values"
| "fill_missing w (idx # idxs) indexed_values =
     (case map_of indexed_values idx of
        None \<Rightarrow> fill_missing w idxs (dict_set idx [w] indexed_values)
      | Some rs \<Rightarrow>
          (case max_specificity rs of
             Inl e \<Rightarrow> Inl e
           | Inr m \<Rightarrow>
               if specificity w > m then fill_missing w idxs (dict_set idx [w] indexed_values)
               else fill_missing w idxs indexed_values))"

text \<open>\<open>most_specific_for_key\<close>: the most specific rule of every position.\<close>

fun most_specific_per_index ::
  "(nat \<times> rule list) list \<Rightarrow> error + (nat \<times> rule) list" where
  "most_specific_per_index [] = Inr []"
| "most_specific_per_index ((i, rs) # d) =
     (case take_most_specific_in_list rs of
        Inl e \<Rightarrow> Inl e
      | Inr r \<Rightarrow>
          (case most_specific_per_index d of
             Inl e \<Rightarrow> Inl e
           | Inr m \<Rightarrow> Inr ((i, r) # m)))"

text \<open>\<open>[most_specific_for_key[i].get_value(self) for i in indices]\<close>.\<close>

fun values_at ::
  "(rule \<Rightarrow> config \<Rightarrow> error + pyval) \<Rightarrow> config \<Rightarrow> (nat \<times> rule) list \<Rightarrow> nat list
     \<Rightarrow> error + pyval list" where
  "values_at gv c m [] = Inr []"
| "values_at gv c m (i # is) =
     (case map_of m i of
        None \<Rightarrow> Inl KeyError
      | Some r \<Rightarrow>
          (case gv r c of
             Inl e \<Rightarrow> Inl e
           | Inr v \<Rightarrow>
               (case values_at gv c m is of
                  Inl e \<Rightarrow> Inl e
                | Inr vs \<Rightarrow> Inr (v # vs))))"

text \<open>The last loop: a position whose rule has no index takes its own element of the
  value.\<close>

fun pick_positions ::
  "(nat \<times> rule) list \<Rightarrow> nat list \<Rightarrow> pyval list \<Rightarrow> error + pyval list" where
  "pick_positions m [] vs = Inr vs"
| "pick_positions m (i # is) vs =
     (case map_of m i of
        None \<Rightarrow> Inl KeyError
      | Some r \<Rightarrow>
          if \<not> is_IndexSelector (head r)
          then (if i < length vs
                then (case py_getitem (vs ! i) i of
                        Inl e \<Rightarrow> Inl e
                      | Inr v \<Rightarrow> pick_positions m is (vs[i := v]))
                else Inl IndexError)
          else pick_positions m is vs)"

text \<open>The body of the loop of \<open>Config._take_most_specific_per_key_and_index\<close> for one key
  and its rules.\<close>

definition most_specific_for_key_and_index ::
  "(rule \<Rightarrow> config \<Rightarrow> error + pyval) \<Rightarrow> config \<Rightarrow> string \<Rightarrow> rule list \<Rightarrow> error + pyval" where
  "most_specific_for_key_and_index gv c k rs =
     (case split_indexed rs ([], False, []) of
        (rule_if_no_indexed0, any_indexed, indexed_values0) \<Rightarrow>
          let rule_if_no_indexed =
                (if length rule_if_no_indexed0 = 0 then [least_specific_rule]
                 else rule_if_no_indexed0)
          in case take_most_specific_in_list rule_if_no_indexed of
               Inl e \<Rightarrow> Inl e
             | Inr most_specific_rule_if_no_index \<Rightarrow>
                 (case gv most_specific_rule_if_no_index c of
                    Inl e \<Rightarrow> Inl e
                  | Inr value_if_no_indexed0 \<Rightarrow>
                      if \<not> any_indexed then Inr value_if_no_indexed0
                      else
                        let value_if_no_indexed =
                              (if \<not> is_list_or_tuple value_if_no_indexed0
                               then [value_if_no_indexed0]
                               else items value_if_no_indexed0)
                        in case fill_missing most_specific_rule_if_no_index
                                  [0 ..< length value_if_no_indexed] indexed_values0 of
                             Inl e \<Rightarrow> Inl e
                           | Inr indexed_values \<Rightarrow>
                               (case most_specific_per_index indexed_values of
                                  Inl e \<Rightarrow> Inl e
                                | Inr most_specific_for_key \<Rightarrow>
                                    let indices = sort (map fst indexed_values)
                                    in if indices = [] then Inl IndexError
                                       else
                                         let missing_indices =
                                               filter (\<lambda>i. i \<notin> set indices) [0 ..< last indices]
                                         in if length missing_indices \<noteq> 0
                                            then Inl (AssertionError missing_indices k)
                                            else
                                              (case values_at gv c most_specific_for_key indices of
                                                 Inl e \<Rightarrow> Inl e
                                               | Inr most_specific_values0 \<Rightarrow>
                                                   (case pick_positions most_specific_for_key indices
                                                           most_specific_values0 of
                                                      Inl e \<Rightarrow> Inl e
                                                    | Inr most_specific_values \<Rightarrow>
                                                        Inr (VList most_specific_values))))))"

text \<open>\<open>Config._take_most_specific_per_key_and_index\<close>: every exception leaves the
  function.\<close>

fun take_most_specific_per_key_and_index ::
  "(rule \<Rightarrow> config \<Rightarrow> error + pyval) \<Rightarrow> config \<Rightarrow> (string \<times> rule list) list
     \<Rightarrow> error + (string \<times> pyval) list" where
  "take_most_specific_per_key_and_index gv c [] = Inr []"
| "take_most_specific_per_key_and_index gv c ((k, rs) # d) =
     (case most_specific_for_key_and_index gv c k rs of
        Inl e \<Rightarrow> Inl e
      | Inr v \<Rightarrow>
          (case take_most_specific_per_key_and_index gv c d of
             Inl e \<Rightarrow> Inl e
           | Inr most_specific \<Rightarrow> Inr ((k, v) # most_specific)))"

subsection \<open>get and get_value\<close>

text \<open>
  \<open>Config.get(selectors, default, return_dict_if_multiple)\<close>, with \<open>gv\<close> for
  \<open>rule.get_value\<close>, in its two halves: \<open>most_specific_keys\<close> is the dictionary
  \<open>most_specific\<close> (or the exception raised while it is computed), \<open>get_with\<close> the decision
  on its length. \<open>dflt = None\<close> is the call without a default.
\<close>

definition most_specific_keys ::
  "(rule \<Rightarrow> config \<Rightarrow> error + pyval) \<Rightarrow> config \<Rightarrow> selector
     \<Rightarrow> error + (string \<times> pyval) list" where
  "most_specific_keys gv c selectors =
     (let full_context = sel_add (context_of c) selectors;
          last_selector_is_index = is_IndexSelector (snd (pop full_context));
          rs = get_all_matching_rules c selectors True (\<not> last_selector_is_index);
          rules_per_key = merge_rules_on_key rs
      in if \<not> last_selector_is_index
         then take_most_specific_per_key_and_index gv c rules_per_key
         else take_most_specific_per_key gv c rules_per_key)"

definition get_with ::
  "(rule \<Rightarrow> config \<Rightarrow> error + pyval) \<Rightarrow> config \<Rightarrow> selector \<Rightarrow> pyval option \<Rightarrow> bool
     \<Rightarrow> error + pyval" where
  "get_with gv c selectors dflt return_dict_if_multiple =
     (case most_specific_keys gv c selectors of
        Inl e \<Rightarrow> Inl e
      | Inr most_specific \<Rightarrow>
          (case most_specific of
             [] \<Rightarrow>
               (case dflt of
                  Some d \<Rightarrow> Inr d
                | None \<Rightarrow> Inl (NoKeysMatch (sel_add (context_of c) selectors)))
           | [(k, v)] \<Rightarrow> Inr v
           | _ \<Rightarrow>
               if return_dict_if_multiple then Inr (VDict most_specific)
               else Inl (MultipleKeysMatch selectors (map fst most_specific))))"

text \<open>
  \<open>ConfigRule.get_value(config)\<close>. A reference is resolved by a \<open>get\<close> that may meet further
  references; the first argument is the recursion depth that is left, and Python raises
  \<open>RecursionError\<close> when it is used up.
\<close>

primrec get_value :: "nat \<Rightarrow> rule \<Rightarrow> config \<Rightarrow> error + pyval" where
  "get_value 0 r c =
     (case rvalue r of
        Ref sels f \<Rightarrow> Inl RecursionError
      | Hook h \<Rightarrow> fh_value h
      | Literal v \<Rightarrow> Inr v)"
| "get_value (Suc n) r c =
     (case rvalue r of
        Ref sels f \<Rightarrow>
          (let new_config = Config (rules_of c) (refs_of c) (scope_root r)
           in case get_with (get_value n) new_config sels None False of
                Inl e \<Rightarrow> Inl e
              | Inr referenced_value \<Rightarrow> f referenced_value)
      | Hook h \<Rightarrow> fh_value h
      | Literal v \<Rightarrow> Inr v)"

definition get :: "nat \<Rightarrow> config \<Rightarrow> selector \<Rightarrow> pyval option \<Rightarrow> bool \<Rightarrow> error + pyval" where
  "get n c selectors dflt return_dict_if_multiple =
     get_with (get_value n) c selectors dflt return_dict_if_multiple"

subsection \<open>Building configurations\<close>

text \<open>\<open>Config()\<close>.\<close>

definition empty_config :: config where
  "empty_config = Config [] [] NoneSelector"

text \<open>\<open>Config.__getattr__(name)\<close>: a new configuration with a longer context.\<close>

definition getattr :: "config \<Rightarrow> string \<Rightarrow> config" where
  "getattr c name =
     (let sel = (if name = ''_'' then WildcardSelector
                 else if name = ''__'' then DoubleWildcardSelector
                 else ClassSelector name)
      in Config (rules_of c) (refs_of c) (sel_add (context_of c) [sel]))"

text \<open>\<open>Config.__getitem__(index)\<close>, the index given by its positions and optional length.\<close>

definition getitem :: "config \<Rightarrow> nat list \<Rightarrow> nat option \<Rightarrow> error + config" where
  "getitem c ix n =
     (if is_NoneSelector (context_of c) then Inl NoContext
      else (case sel_getitem (context_of c) ix n of
              None \<Rightarrow> Inl NoContext
            | Some s \<Rightarrow> Inr (Config (rules_of c) (refs_of c) s)))"

text \<open>\<open>Config.with_selector(selectors)\<close>.\<close>

definition with_selector :: "config \<Rightarrow> selector \<Rightarrow> config" where
  "with_selector c selectors = Config (rules_of c) (refs_of c) (sel_add (context_of c) selectors)"

text \<open>\<open>Config.set(selectors, value, default)\<close> appends to the receiver's rule list and
  returns the receiver.\<close>

definition config_set :: "config \<Rightarrow> selector \<Rightarrow> rule_value \<Rightarrow> bool \<Rightarrow> error + config" where
  "config_set c selectors v dflt =
     (if is_NoneSelector selectors \<and> is_NoneSelector (context_of c) then Inl NoContext
      else
        (case (if is_NoneSelector selectors then pop (context_of c)
               else (sel_add (context_of c) (fst (pop selectors)), snd (pop selectors))) of
           (sels, k) \<Rightarrow>
             Inr (Config
                    (rules_of c @ [if dflt then ConfigRuleDefault sels k v else ConfigRule sels k v])
                    (refs_of c) (context_of c))))"

text \<open>\<open>Config.default(selectors, value)\<close>.\<close>

definition config_default :: "config \<Rightarrow> selector \<Rightarrow> rule_value \<Rightarrow> error + config" where
  "config_default c selectors v = config_set c selectors v True"

text \<open>
  \<open>Config.merge(selectors, config, as_default, prepend)\<close>; the one-argument form
  \<open>merge(config)\<close> is \<open>selectors = NoneSelector\<close>. The method rebinds the receiver's
  \<open>_rules\<close> and returns a new \<open>Config\<close>: the result is the receiver after the call and the
  returned configuration.
\<close>

definition merge :: "config \<Rightarrow> selector \<Rightarrow> config \<Rightarrow> bool \<Rightarrow> bool \<Rightarrow> config \<times> config" where
  "merge c selectors cfg as_default prepend =
     (let additional_rules =
            map (\<lambda>r. ConfigRuleWrapper (sel_add (context_of c) selectors) r as_default)
              (rules_of cfg);
          new_rules = (if prepend then additional_rules @ rules_of c
                       else rules_of c @ additional_rules)
      in (Config new_rules (refs_of c) (context_of c),
          Config new_rules (refs_of c) NoneSelector))"

text \<open>
  \<open>Config.__call__(*x, **kwargs)\<close>: the positional arguments are none, a value, or a value
  and a sub-configuration; the keyword arguments are given with their keys parsed. The
  receiver is not changed: the work is done on a copy, which is returned with its context
  reset.
\<close>

datatype call_args = NoArgs | OneArg rule_value | TwoArgs rule_value config

fun set_all :: "config \<Rightarrow> (selector \<times> rule_value) list \<Rightarrow> error + config" where
  "set_all c [] = Inr c"
| "set_all c ((k, v) # kwargs) =
     (case config_set c k v False of Inl e \<Rightarrow> Inl e | Inr c' \<Rightarrow> set_all c' kwargs)"

definition call :: "config \<Rightarrow> call_args \<Rightarrow> (selector \<times> rule_value) list \<Rightarrow> error + config" where
  "call c x kwargs =
     (case (case x of
              NoArgs \<Rightarrow> Inr c
            | OneArg v \<Rightarrow> config_set c NoneSelector v False
            | TwoArgs v subconfig \<Rightarrow>
                (case config_set c NoneSelector v False of
                   Inl e \<Rightarrow> Inl e
                 | Inr c' \<Rightarrow> Inr (fst (merge c' NoneSelector subconfig False False)))) of
        Inl e \<Rightarrow> Inl e
      | Inr c' \<Rightarrow>
          (case set_all c' kwargs of
             Inl e \<Rightarrow> Inl e
           | Inr c'' \<Rightarrow> Inr (Config (rules_of c'') (refs_of c'') NoneSelector)))"

subsection \<open>populate\<close>

text \<open>
  What \<open>populate\<close> is given to draw values from: a callable (called with the index), a
  sequence with a length, an iterator of finitely many items or one that never ends. Only
  the sequence has \<open>__len__\<close>; only the callable is callable.
\<close>

datatype generator =
    Callable "nat \<Rightarrow> rule_value"
  | Sized "rule_value list"
  | Unsized "rule_value list"
  | Endless "nat \<Rightarrow> rule_value"

fun has_len :: "generator \<Rightarrow> bool" where
  "has_len (Sized xs) = True"
| "has_len g = False"

text \<open>\<open>zip(indices, generator)\<close>, after a callable has been replaced by
  \<open>[generator(i) for i in indices]\<close>.\<close>

fun zip_generator :: "nat list \<Rightarrow> generator \<Rightarrow> (nat \<times> rule_value) list" where
  "zip_generator is (Callable f) = zip is (map f is)"
| "zip_generator is (Sized xs) = zip is xs"
| "zip_generator is (Unsized xs) = zip is xs"
| "zip_generator is (Endless f) = zip is (map f [0 ..< length is])"

datatype warning = UnknownGeneratorLength

text \<open>The appending loops: \<open>ConfigRule(ctx[i] + selectors, str(key), value)\<close> for every
  pair, where \<open>ctx\<close> is \<open>self._context\<close> or \<open>body + new_head.selector\<close>; indexing the empty
  context fails.\<close>

fun populate_context ::
  "selector \<Rightarrow> selector \<Rightarrow> selector \<Rightarrow> (nat \<times> rule_value) list \<Rightarrow> rule list
     \<Rightarrow> error + rule list" where
  "populate_context ctx selectors k [] rs = Inr rs"
| "populate_context ctx selectors k ((i, v) # ivs) rs =
     (case sel_getitem ctx [i] None of
        None \<Rightarrow> Inl NoContext
      | Some s \<Rightarrow> populate_context ctx selectors k ivs (rs @ [ConfigRule (sel_add s selectors) k v]))"

text \<open>
  \<open>Config.populate(selectors, generator, length)\<close>: the warnings issued, and either the
  exception or the receiver after the call and the returned configuration.
\<close>

definition populate ::
  "config \<Rightarrow> selector \<Rightarrow> generator \<Rightarrow> nat option
     \<Rightarrow> warning list \<times> (error + config \<times> config)" where
  "populate c selectors0 generator length0 =
     (case pop selectors0 of
        (selectors, k) \<Rightarrow>
          (case pop (context_of c) of
             (body, hd_sel) \<Rightarrow>
               (case hd_sel of
                  [IndexSelector b ix n] \<Rightarrow>
                    let new_head_selector = [b];
                        integers_to_populate = get_list_of_indices [IndexSelector b ix length0]
                    in ([],
                        case populate_context (sel_add body new_head_selector) selectors k
                               (zip_generator integers_to_populate generator) (rules_of c) of
                          Inl e \<Rightarrow> Inl e
                        | Inr rs \<Rightarrow> Inr (Config rs (refs_of c) (context_of c),
                                         Config rs (refs_of c) NoneSelector))
                | _ \<Rightarrow>
                    let warnings = (if length0 = None \<and> \<not> has_len generator
                                    then [UnknownGeneratorLength] else []);
                        len = (case length0 of None \<Rightarrow> 256 | Some n \<Rightarrow> if n = 0 then 256 else n)
                    in (warnings,
                        case populate_context (context_of c) selectors k
                               (zip_generator [0 ..< len] generator) (rules_of c) of
                          Inl e \<Rightarrow> Inl e
                        | Inr rs \<Rightarrow> Inr (Config rs (refs_of c) (context_of c),
                                         Config rs (refs_of c) NoneSelector)))))"

subsection \<open>Example configurations\<close>

text \<open>\<open>lambda v: v + 1\<close> on the values modelled.\<close>

definition py_add_one :: "pyval \<Rightarrow> error + pyval" where
  "py_add_one v = (case v of VInt i \<Rightarrow> Inr (VInt (i + 1)) | _ \<Rightarrow> Inl TypeError)"

text \<open>\<open>Config().x.y(100).a.b(Ref("x.y", lambda v: v + 1))\<close>.\<close>

definition ref_example :: "error + config" where
  "ref_example =
     (case call (getattr (getattr empty_config ''x'') ''y'') (OneArg (Literal (VInt 100))) [] of
        Inl e \<Rightarrow> Inl e
      | Inr c \<Rightarrow>
          call (getattr (getattr c ''a'') ''b'')
            (OneArg (Ref [ClassSelector ''x'', ClassSelector ''y''] py_add_one)) [])"

text \<open>\<open>Config().a(1)\<close> and \<open>Config().b(2)\<close>.\<close>

definition config_a1 :: "error + config" where
  "config_a1 = call (getattr empty_config ''a'') (OneArg (Literal (VInt 1))) []"

definition config_b2 :: "error + config" where
  "config_b2 = call (getattr empty_config ''b'') (OneArg (Literal (VInt 2))) []"

text \<open>A rule with a wildcard head and a rule with an indexed head under \<open>a\<close>.\<close>

definition wildcard_example :: config where
  "wildcard_example =
     Config [ConfigRule [ClassSelector ''a''] [WildcardSelector] (Literal (VInt 1)),
             ConfigRule [ClassSelector ''a''] [IndexSelector (ClassSelector ''layers'') [0] None]
               (Literal (VInt 2))] [] []"

text \<open>The \<open>n\<close>-th item a generator yields, for a generator that yields that many.\<close>

fun generated :: "generator \<Rightarrow> nat \<Rightarrow> rule_value" where
  "generated (Callable f) i = f i"
| "generated (Sized xs) i = xs ! i"
| "generated (Unsized xs) i = xs ! i"
| "generated (Endless f) i = f i"

text \<open>Whether a generator yields at least \<open>n\<close> items.\<close>

fun yields_at_least :: "generator \<Rightarrow> nat \<Rightarrow> bool" where
  "yields_at_least (Callable f) n = True"
| "yields_at_least (Sized xs) n = (n \<le> length xs)"
| "yields_at_least (Unsized xs) n = (n \<le> length xs)"
| "yields_at_least (Endless f) n = True"




subsection \<open>Notions used to state the indexed resolution\<close>

text \<open>The list a dictionary of lists holds for a key, empty when the key is absent.\<close>

definition entries :: "('k \<times> 'v list) list \<Rightarrow> 'k \<Rightarrow> 'v list" where
  "entries d k = (case map_of d k of None \<Rightarrow> [] | Some vs \<Rightarrow> vs)"

text \<open>A dictionary of lists as the resolution builds them: distinct keys, no empty list.\<close>

definition dict_ok :: "('k \<times> 'v list) list \<Rightarrow> bool" where
  "dict_ok d = (distinct (map fst d) \<and> [] \<notin> set (map snd d))"

text \<open>The index-specific rules of a position: the rules with an indexed head whose index
  list has the position, in registration order.\<close>

definition indexed_rules_at :: "rule list \<Rightarrow> nat \<Rightarrow> rule list" where
  "indexed_rules_at rs i =
     filter (\<lambda>r. is_IndexSelector (head r) \<and> i \<in> set (get_list_of_indices (head r))) rs"

text \<open>The same rules, each once for every time its index list names the position (what
  \<open>indexed_values[i]\<close> holds after the first loop).\<close>

definition occurrences :: "rule list \<Rightarrow> nat \<Rightarrow> rule list" where
  "occurrences rs i =
     concat (map (\<lambda>r. if is_IndexSelector (head r)
                       then replicate (count_list (get_list_of_indices (head r)) i) r
                       else []) rs)"

text \<open>One step of the loop of \<open>_take_most_specific_in_list\<close>.\<close>

definition more_specific_step :: "rule \<Rightarrow> rule \<Rightarrow> rule" where
  "more_specific_step m r = (if is_more_specific_than r (Some m) then r else m)"

text \<open>\<open>rule_if_no_indexed\<close> after the placeholder has been put in.\<close>

definition non_indexed_rules :: "rule list \<Rightarrow> rule list" where
  "non_indexed_rules rs =
     (if filter (\<lambda>r. \<not> is_IndexSelector (head r)) rs = [] then [least_specific_rule]
      else filter (\<lambda>r. \<not> is_IndexSelector (head r)) rs)"

text \<open>The value of the non-indexed winner as the sequence that is broadcast.\<close>

definition broadcast_values :: "pyval \<Rightarrow> pyval list" where
  "broadcast_values v = (if \<not> is_list_or_tuple v then [v] else items v)"

text \<open>The positions covered by an index-specific rule or by the broadcast.\<close>

definition covered :: "rule list \<Rightarrow> pyval \<Rightarrow> nat set" where
  "covered rs v =
     (\<Union>r \<in> set (filter (\<lambda>r. is_IndexSelector (head r)) rs). set (get_list_of_indices (head r)))
     \<union> {0 ..< length (broadcast_values v)}"


text \<open>What is left of the loop body once the rules are split and the value of the
  non-indexed winner is known.\<close>

definition resolve_positions ::
  "(rule \<Rightarrow> config \<Rightarrow> error + pyval) \<Rightarrow> config \<Rightarrow> string \<Rightarrow> (nat \<times> rule list) list
     \<Rightarrow> (nat \<times> rule) list \<Rightarrow> error + pyval" where
  "resolve_positions gv c k D M =
     (if sort (map fst D) = [] then Inl IndexError
      else if filter (\<lambda>i. i \<notin> set (sort (map fst D))) [0 ..< last (sort (map fst D))] \<noteq> []
      then Inl (AssertionError
                  (filter (\<lambda>i. i \<notin> set (sort (map fst D))) [0 ..< last (sort (map fst D))]) k)
      else (case values_at gv c M (sort (map fst D)) of
              Inl e \<Rightarrow> Inl e
            | Inr vals \<Rightarrow>
                (case pick_positions M (sort (map fst D)) vals of
                   Inl e \<Rightarrow> Inl e
                 | Inr out \<Rightarrow> Inr (VList out))))"


definition gap_example :: config where
  "gap_example =
     Config [ConfigRule [ClassSelector ''a''] [IndexSelector (ClassSelector ''layers'') [0] None]
               (Literal (VInt 5)),
             ConfigRule [ClassSelector ''a''] [IndexSelector (ClassSelector ''layers'') [2] None]
               (Literal (VInt 7))] [] []"


section \<open>Rule wrappers\<close>

text \<open>
  C3, as the claim states it, fails: wrapping a default rule (specificity 0) without asking
  for default status gives a wrapper of specificity 1, not 0.
\<close>

theorem wrapper_specificity_counterexample:
  "specificity (ConfigRuleDefault [] [ClassSelector ''b''] (Literal (VInt 2))) = 0 \<and>
   specificity (ConfigRuleWrapper [ClassSelector ''other'']
                  (ConfigRuleDefault [] [ClassSelector ''b''] (Literal (VInt 2))) False) = 1"
  by (simp add: ConfigRuleWrapper_def ConfigRuleDefault_def ConfigRule_def)

text \<open>
  C3 (amended): a rule \<open>r\<close> wrapped with the prefix selector \<open>p\<close> has the selector
  \<open>p + r.selector\<close> and the scope root \<open>p + r.scope_root\<close>, keeps the key, head and value of
  \<open>r\<close>, and has specificity 0 when the wrap asks for default status and specificity 1
  otherwise, whatever the specificity of \<open>r\<close>.
\<close>

theorem wrapper_fields:
  "selector (ConfigRuleWrapper p r d) = sel_add p (selector r) \<and>
   scope_root (ConfigRuleWrapper p r d) = sel_add p (scope_root r) \<and>
   key (ConfigRuleWrapper p r d) = key r \<and>
   head (ConfigRuleWrapper p r d) = head r \<and>
   rvalue (ConfigRuleWrapper p r d) = rvalue r \<and>
   specificity (ConfigRuleWrapper p r d) = (if d then 0 else 1)"
  by (simp add: ConfigRuleWrapper_def)

section \<open>Forward hooks\<close>

lemma fh_call_run_again:
  assumes "first_only h" and "has_run_flag h"
  shows "fh_call h y = Inr (cached_value h, h)"
  using assms by (simp add: fh_call_def)

lemma fh_calls_run_again:
  assumes "first_only h" and "has_run_flag h"
  shows "fh_calls h ys = Inr h"
  using assms by (induction ys) (simp_all add: fh_call_run_again)

lemma fh_call_first:
  assumes "\<not> has_run_flag h" and "fh_call h x = Inr (r, h1)"
  shows "hook h x = Inr (cached_value h1) \<and> has_run_flag h1 \<and> first_only h1 = first_only h
         \<and> r = VNone"
  using assms by (auto simp: fh_call_def split: sum.splits)

text \<open>
  C7: \<open>value()\<close> of a hook that has not run raises (in particular of a new hook), and once a
  hook with \<open>first_only\<close> has been triggered, the trigger returning, every later trigger
  leaves the hook as it is and \<open>value()\<close> stays the result of the first trigger.
\<close>

theorem forward_hook_gating:
  "fh_value (ForwardHook f fo) = Inl HookNotRun \<and>
   (\<not> has_run_flag h \<longrightarrow> fh_value h = Inl HookNotRun) \<and>
   (first_only h \<and> \<not> has_run_flag h \<and> fh_call h x = Inr (r, h1) \<longrightarrow>
      hook h x = Inr (cached_value h1) \<and>
      fh_value h1 = Inr (cached_value h1) \<and>
      fh_call h1 y = Inr (cached_value h1, h1) \<and>
      fh_calls h1 ys = Inr h1)"
proof (intro conjI impI)
  show "fh_value (ForwardHook f fo) = Inl HookNotRun"
    by (simp add: fh_value_def ForwardHook_def)
next
  assume "\<not> has_run_flag h"
  then show "fh_value h = Inl HookNotRun"
    by (simp add: fh_value_def)
next
  assume a: "first_only h \<and> \<not> has_run_flag h \<and> fh_call h x = Inr (r, h1)"
  then have first: "hook h x = Inr (cached_value h1)" "has_run_flag h1" "first_only h1"
    using fh_call_first [of h x r h1] by simp_all
  show "hook h x = Inr (cached_value h1)" by (rule first(1))
  show "fh_value h1 = Inr (cached_value h1)"
    using first(2) by (simp add: fh_value_def)
  show "fh_call h1 y = Inr (cached_value h1, h1)"
    using first by (simp add: fh_call_run_again)
  show "fh_calls h1 ys = Inr h1"
    using first by (simp add: fh_calls_run_again)
qed

theorem forward_hook_gating_witness:
  "fh_value (ForwardHook (\<lambda>x. Inr x) True) = Inl HookNotRun \<and>
   fh_call (ForwardHook (\<lambda>x. Inr x) True) (VInt 5)
     = Inr (VNone, \<lparr>hook = \<lambda>x. Inr x, first_only = True, cached_value = VInt 5,
                     has_run_flag = True\<rparr>) \<and>
   fh_value \<lparr>hook = \<lambda>x. Inr x, first_only = True, cached_value = VInt 5, has_run_flag = True\<rparr>
     = Inr (VInt 5) \<and>
   fh_calls \<lparr>hook = \<lambda>x. Inr x, first_only = True, cached_value = VInt 5, has_run_flag = True\<rparr>
       [VInt 6, VInt 7]
     = Inr \<lparr>hook = \<lambda>x. Inr x, first_only = True, cached_value = VInt 5, has_run_flag = True\<rparr>"
  using forward_hook_gating [of "\<lambda>x. Inr x" True "ForwardHook (\<lambda>x. Inr x) True" "VInt 5" VNone
      "\<lparr>hook = \<lambda>x. Inr x, first_only = True, cached_value = VInt 5, has_run_flag = True\<rparr>"
      "VInt 6" "[VInt 6, VInt 7]"]
  by (simp add: ForwardHook_def fh_call_def)

section \<open>Lookups\<close>

lemmas sel_defs =
  sel_add_def pop_def NoneSelector_def is_NoneSelector_def selector_key_def

lemmas build_defs =
  call_def config_set_def config_default_def getattr_def empty_config_def ConfigRule_def
  ConfigRuleDefault_def

lemmas get_defs =
  get_def get_with_def most_specific_keys_def get_all_matching_rules_def
  merge_rules_on_key_def matches_def most_specific_for_key_and_index_def
  take_most_specific_in_list_def is_more_specific_than_def

lemma get_value_Literal: "rvalue r = Literal v \<Longrightarrow> get_value n r c = Inr v"
  by (cases n) simp_all

lemma get_value_Hook: "rvalue r = Hook h \<Longrightarrow> get_value n r c = fh_value h"
  by (cases n) simp_all

text \<open>
  C6: when no key resolves, \<open>get\<close> returns the default that was given and otherwise raises
  the error that names the selector looked up; when one key resolves, it returns its
  value; when several resolve, it returns the mapping if \<open>return_dict_if_multiple\<close> is set
  and otherwise raises the error that lists the keys.
\<close>

theorem get_outcomes:
  "(most_specific_keys (get_value n) c s = Inr [] \<longrightarrow>
      get n c s (Some d) rd = Inr d \<and>
      get n c s None rd = Inl (NoKeysMatch (sel_add (context_of c) s))) \<and>
   (most_specific_keys (get_value n) c s = Inr [(k, v)] \<longrightarrow> get n c s dflt rd = Inr v) \<and>
   (most_specific_keys (get_value n) c s = Inr ms \<and> 2 \<le> length ms \<longrightarrow>
      get n c s dflt True = Inr (VDict ms) \<and>
      get n c s dflt False = Inl (MultipleKeysMatch s (map fst ms)))"
  by (auto simp: get_def get_with_def split: list.splits)

theorem get_outcomes_witness:
  "get 0 wildcard_example [ClassSelector ''a'', ClassSelector ''b''] (Some (VInt 7)) False
     = Inr (VInt 7) \<and>
   get 0 wildcard_example [ClassSelector ''a'', ClassSelector ''b''] None False
     = Inl (NoKeysMatch [ClassSelector ''a'', ClassSelector ''b'']) \<and>
   get 0 wildcard_example [ClassSelector ''a'', ClassSelector ''layers''] None False
     = Inr (VList [VInt 2]) \<and>
   get 0 wildcard_example [ClassSelector ''a'', IndexSelector (ClassSelector ''layers'') [0] None]
       None True
     = Inr (VDict [(''_'', VInt 1), (''layers'', VInt 2)]) \<and>
   get 0 wildcard_example [ClassSelector ''a'', IndexSelector (ClassSelector ''layers'') [0] None]
       None False
     = Inl (MultipleKeysMatch
              [ClassSelector ''a'', IndexSelector (ClassSelector ''layers'') [0] None]
              [''_'', ''layers''])"
  using
    get_outcomes [where n = 0 and c = wildcard_example
      and s = "[ClassSelector ''a'', ClassSelector ''b'']" and d = "VInt 7" and rd = False]
    get_outcomes [where n = 0 and c = wildcard_example
      and s = "[ClassSelector ''a'', ClassSelector ''layers'']" and k = "''layers''"
      and v = "VList [VInt 2]" and dflt = None and rd = False]
    get_outcomes [where n = 0 and c = wildcard_example
      and s = "[ClassSelector ''a'', IndexSelector (ClassSelector ''layers'') [0] None]"
      and dflt = None and ms = "[(''_'', VInt 1), (''layers'', VInt 2)]"]
  by (simp add: wildcard_example_def get_defs sel_defs ConfigRule_def max_specificity_def
      least_specific_rule_def)

text \<open>
  C5: the value of a rule that holds a reference is found by a \<open>get\<close> of the reference's
  selectors, without a default and without the mapping result, on the configuration with
  the same rules and refs whose context is the rule's scope root; no key or several keys
  there raise, and one key gives the reference's function applied to its value. With
  \<open>x.y\<close> set to 100 and \<open>a.b\<close> to the reference to \<open>x.y\<close> that adds one, \<open>get("a.b")\<close> is 101
  at every recursion depth that allows one reference.
\<close>

theorem get_value_reference:
  "(rvalue r = Ref sels f \<longrightarrow>
      get_value (Suc n) r c
        = (case get n (Config (rules_of c) (refs_of c) (scope_root r)) sels None False of
             Inl e \<Rightarrow> Inl e
           | Inr v \<Rightarrow> f v) \<and>
      (most_specific_keys (get_value n) (Config (rules_of c) (refs_of c) (scope_root r)) sels
         = Inr [] \<longrightarrow>
       get_value (Suc n) r c = Inl (NoKeysMatch (sel_add (scope_root r) sels))) \<and>
      (most_specific_keys (get_value n) (Config (rules_of c) (refs_of c) (scope_root r)) sels
         = Inr [(k, v)] \<longrightarrow>
       get_value (Suc n) r c = f v) \<and>
      (most_specific_keys (get_value n) (Config (rules_of c) (refs_of c) (scope_root r)) sels
         = Inr ms \<and> 2 \<le> length ms \<longrightarrow>
       get_value (Suc n) r c = Inl (MultipleKeysMatch sels (map fst ms)))) \<and>
   (case ref_example of
      Inl e \<Rightarrow> False
    | Inr cfg \<Rightarrow>
        get (Suc n) cfg [ClassSelector ''a'', ClassSelector ''b''] None False = Inr (VInt 101))"
proof -
  have example:
    "case ref_example of
       Inl e \<Rightarrow> False
     | Inr cfg \<Rightarrow>
         get (Suc n) cfg [ClassSelector ''a'', ClassSelector ''b''] None False = Inr (VInt 101)"
    by (simp add: ref_example_def build_defs get_defs sel_defs get_value_Literal py_add_one_def)
  have general: "get_value (Suc n) r c
        = (case get n (Config (rules_of c) (refs_of c) (scope_root r)) sels None False of
             Inl e \<Rightarrow> Inl e
           | Inr v \<Rightarrow> f v)" if "rvalue r = Ref sels f"
    using that by (simp add: get_def Let_def)
  show ?thesis
    using example by (auto simp: general get_def get_with_def Let_def split: list.splits)
qed

theorem get_value_reference_witness:
  "get_value 1
     (ConfigRule [ClassSelector ''a''] [ClassSelector ''b'']
        (Ref [ClassSelector ''x'', ClassSelector ''y''] py_add_one))
     (Config [ConfigRule [ClassSelector ''x''] [ClassSelector ''y''] (Literal (VInt 100)),
              ConfigRule [ClassSelector ''a''] [ClassSelector ''b'']
                (Ref [ClassSelector ''x'', ClassSelector ''y''] py_add_one)] [] [])
     = Inr (VInt 101) \<and>
   get_value 1
     (ConfigRule [ClassSelector ''a''] [ClassSelector ''b'']
        (Ref [ClassSelector ''x'', ClassSelector ''z''] py_add_one))
     (Config [ConfigRule [ClassSelector ''x''] [ClassSelector ''y''] (Literal (VInt 100))] [] [])
     = Inl (NoKeysMatch [ClassSelector ''x'', ClassSelector ''z''])"
  using
    get_value_reference [where n = 0
      and r = "ConfigRule [ClassSelector ''a''] [ClassSelector ''b'']
                 (Ref [ClassSelector ''x'', ClassSelector ''y''] py_add_one)"
      and sels = "[ClassSelector ''x'', ClassSelector ''y'']" and f = py_add_one
      and k = "''y''" and v = "VInt 100"
      and c = "Config [ConfigRule [ClassSelector ''x''] [ClassSelector ''y''] (Literal (VInt 100)),
              ConfigRule [ClassSelector ''a''] [ClassSelector ''b'']
                (Ref [ClassSelector ''x'', ClassSelector ''y''] py_add_one)] [] []"]
    get_value_reference [where n = 0
      and r = "ConfigRule [ClassSelector ''a''] [ClassSelector ''b'']
                 (Ref [ClassSelector ''x'', ClassSelector ''z''] py_add_one)"
      and sels = "[ClassSelector ''x'', ClassSelector ''z'']" and f = py_add_one
      and c = "Config [ConfigRule [ClassSelector ''x''] [ClassSelector ''y''] (Literal (VInt 100))] [] []"]
  by (simp add: get_defs sel_defs ConfigRule_def py_add_one_def)

section \<open>merge\<close>

text \<open>
  C10: \<open>merge\<close> changes the receiver. After \<open>c1.merge(name, c2)\<close> the receiver's own rule
  list is its old list with the wrapped rules of \<open>c2\<close> appended (put in front with
  \<open>prepend\<close>), its refs and context are as before, and the returned configuration has the
  same rules with the context reset. With \<open>c1 = Config().a(1)\<close> and \<open>c2 = Config().b(2)\<close>,
  \<open>c1.get("other.b")\<close> raises before the merge and is 2 on the receiver after
  \<open>c1.merge("other", c2)\<close>.
\<close>

theorem merge_mutates_receiver:
  "rules_of (fst (merge c1 name c2 d False))
     = rules_of c1 @ map (\<lambda>r. ConfigRuleWrapper (sel_add (context_of c1) name) r d) (rules_of c2) \<and>
   rules_of (fst (merge c1 name c2 d True))
     = map (\<lambda>r. ConfigRuleWrapper (sel_add (context_of c1) name) r d) (rules_of c2) @ rules_of c1 \<and>
   refs_of (fst (merge c1 name c2 d p)) = refs_of c1 \<and>
   context_of (fst (merge c1 name c2 d p)) = context_of c1 \<and>
   rules_of (snd (merge c1 name c2 d p)) = rules_of (fst (merge c1 name c2 d p)) \<and>
   context_of (snd (merge c1 name c2 d p)) = NoneSelector \<and>
   (case (config_a1, config_b2) of
      (Inr a1, Inr b2) \<Rightarrow>
        get n a1 [ClassSelector ''other'', ClassSelector ''b''] None False
          = Inl (NoKeysMatch [ClassSelector ''other'', ClassSelector ''b'']) \<and>
        get n (fst (merge a1 [ClassSelector ''other''] b2 False False))
            [ClassSelector ''other'', ClassSelector ''b''] None False
          = Inr (VInt 2) \<and>
        get n (fst (merge a1 [ClassSelector ''other''] b2 False False))
            [ClassSelector ''a''] None False
          = Inr (VInt 1)
    | _ \<Rightarrow> False)"
proof -
  have example:
    "case (config_a1, config_b2) of
      (Inr a1, Inr b2) \<Rightarrow>
        get n a1 [ClassSelector ''other'', ClassSelector ''b''] None False
          = Inl (NoKeysMatch [ClassSelector ''other'', ClassSelector ''b'']) \<and>
        get n (fst (merge a1 [ClassSelector ''other''] b2 False False))
            [ClassSelector ''other'', ClassSelector ''b''] None False
          = Inr (VInt 2) \<and>
        get n (fst (merge a1 [ClassSelector ''other''] b2 False False))
            [ClassSelector ''a''] None False
          = Inr (VInt 1)
    | _ \<Rightarrow> False"
    by (simp add: config_a1_def config_b2_def build_defs merge_def Let_def
        ConfigRuleWrapper_def get_defs sel_defs get_value_Literal)
  show ?thesis
    using example by (simp add: merge_def Let_def)
qed

section \<open>populate\<close>

lemma populate_context_nonempty:
  assumes "ctx \<noteq> []"
  shows "populate_context ctx selectors k ivs rs
           = Inr (rs @ map (\<lambda>(i, v).
                             ConfigRule (sel_add (butlast ctx @ [IndexSelector (last ctx) [i] None])
                                           selectors) k v) ivs)"
  using assms by (induction ivs arbitrary: rs) (auto simp: sel_getitem_def)

lemma zip_upt_map: "zip [0 ..< n] (map f [0 ..< n]) = map (\<lambda>i. (i, f i)) [0 ..< n]"
  by (rule nth_equalityI) simp_all

lemma zip_upt_nth:
  assumes "n \<le> length xs"
  shows "zip [0 ..< n] xs = map (\<lambda>i. (i, xs ! i)) [0 ..< n]"
  using assms by (intro nth_equalityI) simp_all

lemma zip_generator_upt:
  assumes "yields_at_least g n"
  shows "zip_generator [0 ..< n] g = map (\<lambda>i. (i, generated g i)) [0 ..< n]"
  using assms by (cases g) (simp_all add: zip_upt_map zip_upt_nth)

text \<open>
  C8: on a configuration with a context that does not end in an index selector, \<open>populate\<close>
  without a length, from a generator that has no \<open>__len__\<close> and yields at least 256 items,
  issues the warning and appends exactly 256 rules, for the indices 0 to 255 of the context,
  each with the item generated for its index.
\<close>

theorem populate_unknown_length:
  assumes "context_of c \<noteq> NoneSelector"
    and "\<not> is_IndexSelector (snd (pop (context_of c)))"
    and "\<not> has_len g"
    and "yields_at_least g 256"
  shows "\<exists>rs. populate c selectors g None
                = ([UnknownGeneratorLength],
                   Inr (Config rs (refs_of c) (context_of c), Config rs (refs_of c) NoneSelector)) \<and>
              rs = rules_of c @
                   map (\<lambda>i. ConfigRule
                              (sel_add (butlast (context_of c)
                                          @ [IndexSelector (last (context_of c)) [i] None])
                                 (fst (pop selectors)))
                              (snd (pop selectors)) (generated g i)) [0 ..< 256] \<and>
              length rs = length (rules_of c) + 256"
proof -
  obtain body hd_sel where p: "pop (context_of c) = (body, hd_sel)"
    by (cases "pop (context_of c)")
  obtain sels k where q: "pop selectors = (sels, k)"
    by (cases "pop selectors")
  have ne: "context_of c \<noteq> []"
    using assms(1) by (simp add: NoneSelector_def)
  have not_index: "\<not> is_IndexSelector hd_sel"
    using assms(2) p by simp
  have z: "zip_generator [0 ..< 256] g = map (\<lambda>i. (i, generated g i)) [0 ..< 256]"
    using assms(4) by (rule zip_generator_upt)
  show ?thesis
    unfolding populate_def p q
    using assms(3) not_index
    by (auto simp: populate_context_nonempty [OF ne] z comp_def
        split: list.splits segment.splits simp del: upt.simps)
qed

theorem populate_unknown_length_witness:
  "fst (populate (getattr empty_config ''a'') [ClassSelector ''x'']
          (Endless (\<lambda>i. Literal (VInt (int i)))) None) = [UnknownGeneratorLength] \<and>
   (case snd (populate (getattr empty_config ''a'') [ClassSelector ''x'']
                (Endless (\<lambda>i. Literal (VInt (int i)))) None) of
      Inl e \<Rightarrow> False
    | Inr (c, c') \<Rightarrow>
        length (rules_of c) = 256 \<and> rules_of c' = rules_of c \<and>
        rules_of c ! 255
          = ConfigRule [IndexSelector (ClassSelector ''a'') [255] None] [ClassSelector ''x'']
              (Literal (VInt 255)))"
  using populate_unknown_length [where c = "getattr empty_config ''a''"
      and g = "Endless (\<lambda>i. Literal (VInt (int i)))" and selectors = "[ClassSelector ''x'']"]
  by (auto simp: getattr_def empty_config_def sel_defs nth_append simp del: upt.simps)

section \<open>Specificity\<close>







section \<open>Indexed resolution\<close>

subsection \<open>Dictionaries of rule lists\<close>

lemma map_of_dict_append:
  "map_of (dict_append k v d) i = (if i = k then Some (entries d k @ [v]) else map_of d i)"
  by (induction d) (auto simp: entries_def)

lemma entries_dict_append:
  "entries (dict_append k v d) i = (if i = k then entries d k @ [v] else entries d i)"
  by (simp add: entries_def map_of_dict_append)

lemma keys_dict_append: "fst ` set (dict_append k v d) = insert k (fst ` set d)"
proof (induction d)
  case Nil
  show ?case by simp
next
  case (Cons a d)
  then show ?case by (cases a) auto
qed

lemma dict_ok_dict_append: "dict_ok d \<Longrightarrow> dict_ok (dict_append k v d)"
proof (induction d)
  case Nil
  then show ?case by (simp add: dict_ok_def)
next
  case (Cons a d)
  obtain k' vs where a: "a = (k', vs)" by (cases a)
  have "dict_ok d" using Cons.prems by (auto simp: dict_ok_def)
  then have ih: "dict_ok (dict_append k v d)" by (rule Cons.IH)
  show ?case
  proof (cases "k = k'")
    case True
    then show ?thesis using Cons.prems a by (auto simp: dict_ok_def)
  next
    case False
    have "k' \<notin> set (map fst (dict_append k v d))"
      using Cons.prems a False by (simp add: keys_dict_append dict_ok_def)
    then show ?thesis
      using ih a False Cons.prems by (auto simp: dict_ok_def)
  qed
qed

lemma map_of_dict_set: "map_of (dict_set k x d) i = (if i = k then Some x else map_of d i)"
  by (induction d) auto

lemma entries_dict_set: "entries (dict_set k x d) i = (if i = k then x else entries d i)"
  by (simp add: entries_def map_of_dict_set)

lemma keys_dict_set: "fst ` set (dict_set k x d) = insert k (fst ` set d)"
proof (induction d)
  case Nil
  show ?case by simp
next
  case (Cons a d)
  then show ?case by (cases a) auto
qed

lemma dict_ok_dict_set: "dict_ok d \<Longrightarrow> x \<noteq> [] \<Longrightarrow> dict_ok (dict_set k x d)"
proof (induction d)
  case Nil
  then show ?case by (simp add: dict_ok_def)
next
  case (Cons a d)
  obtain k' vs where a: "a = (k', vs)" by (cases a)
  have "dict_ok d" using Cons.prems by (auto simp: dict_ok_def)
  then have ih: "dict_ok (dict_set k x d)" using Cons.prems(2) by (rule Cons.IH)
  show ?case
  proof (cases "k = k'")
    case True
    then show ?thesis using Cons.prems a by (auto simp: dict_ok_def)
  next
    case False
    have "k' \<notin> set (map fst (dict_set k x d))"
      using Cons.prems a False by (simp add: keys_dict_set dict_ok_def)
    then show ?thesis
      using ih a False Cons.prems by (auto simp: dict_ok_def)
  qed
qed

lemma dict_ok_map_of:
  assumes "dict_ok d"
  shows "map_of d i = (if entries d i = [] then None else Some (entries d i))"
proof (cases "map_of d i")
  case None
  then show ?thesis by (simp add: entries_def)
next
  case (Some vs)
  then have "(i, vs) \<in> set d" by (rule map_of_SomeD)
  then have "vs \<noteq> []" using assms by (force simp: dict_ok_def)
  then show ?thesis using Some by (simp add: entries_def)
qed

lemma dict_ok_keys:
  assumes "dict_ok d"
  shows "set (map fst d) = {i. entries d i \<noteq> []}"
proof -
  have "i \<in> set (map fst d) \<longleftrightarrow> entries d i \<noteq> []" for i
  proof -
    have "i \<in> set (map fst d) \<longleftrightarrow> map_of d i \<noteq> None"
      by (simp add: map_of_eq_None_iff)
    then show ?thesis
      using dict_ok_map_of [OF assms, of i] by (simp split: if_splits)
  qed
  then show ?thesis by auto
qed

subsection \<open>The loops of the resolution\<close>

lemma entries_foldl_dict_append:
  "entries (foldl (\<lambda>d j. dict_append j r d) D js) i = entries D i @ replicate (count_list js i) r"
  by (induction js arbitrary: D) (simp_all add: entries_dict_append)

lemma dict_ok_foldl_dict_append:
  "dict_ok D \<Longrightarrow> dict_ok (foldl (\<lambda>d j. dict_append j r d) D js)"
  by (induction js arbitrary: D) (simp_all add: dict_ok_dict_append)

lemma split_indexed_noidx:
  "fst (split_indexed rs acc) = fst acc @ filter (\<lambda>r. \<not> is_IndexSelector (head r)) rs"
proof (induction rs arbitrary: acc)
  case Nil
  show ?case by simp
next
  case (Cons r rs)
  obtain N a D where acc: "acc = (N, a, D)" by (cases acc)
  show ?case unfolding acc by (simp add: Cons.IH)
qed

lemma split_indexed_any:
  "fst (snd (split_indexed rs acc))
     = (fst (snd acc) \<or> (\<exists>r \<in> set rs. is_IndexSelector (head r)))"
proof (induction rs arbitrary: acc)
  case Nil
  show ?case by simp
next
  case (Cons r rs)
  obtain N a D where acc: "acc = (N, a, D)" by (cases acc)
  show ?case unfolding acc by (simp add: Cons.IH)
qed

lemma split_indexed_entries:
  "entries (snd (snd (split_indexed rs acc))) i = entries (snd (snd acc)) i @ occurrences rs i"
proof (induction rs arbitrary: acc)
  case Nil
  show ?case by (simp add: occurrences_def)
next
  case (Cons r rs)
  obtain N a D where acc: "acc = (N, a, D)" by (cases acc)
  show ?case unfolding acc
    by (simp add: Cons.IH entries_foldl_dict_append occurrences_def)
qed

lemma split_indexed_ok:
  "dict_ok (snd (snd acc)) \<Longrightarrow> dict_ok (snd (snd (split_indexed rs acc)))"
proof (induction rs arbitrary: acc)
  case Nil
  then show ?case by simp
next
  case (Cons r rs)
  obtain N a D where acc: "acc = (N, a, D)" by (cases acc)
  show ?case using Cons.prems unfolding acc
    by (auto intro!: Cons.IH simp: dict_ok_foldl_dict_append)
qed

lemma set_occurrences: "set (occurrences rs i) = set (indexed_rules_at rs i)"
  by (auto simp: occurrences_def indexed_rules_at_def count_list_0_iff split: if_splits)

lemma take_most_specific_in_list_step:
  "take_most_specific_in_list rs
     = (case rs of [] \<Rightarrow> Inl IndexError | r0 # _ \<Rightarrow> Inr (foldl more_specific_step r0 rs))"
proof -
  have "(\<lambda>m r. if is_more_specific_than r (Some m) then r else m) = more_specific_step"
    by (intro ext) (simp add: more_specific_step_def)
  then show ?thesis by (cases rs) (simp_all add: take_most_specific_in_list_def)
qed

lemma foldl_step_mem: "foldl more_specific_step m rs \<in> insert m (set rs)"
  by (induction rs arbitrary: m) (auto simp: more_specific_step_def)

lemma take_most_specific_in_list_mem:
  assumes "take_most_specific_in_list rs = Inr r"
  shows "r \<in> set rs"
proof (cases rs)
  case Nil
  then show ?thesis using assms by (simp add: take_most_specific_in_list_step)
next
  case (Cons r0 rs')
  then have "r = foldl more_specific_step r0 rs"
    using assms by (simp add: take_most_specific_in_list_step)
  then show ?thesis using foldl_step_mem [of r0 rs] Cons by auto
qed

lemma take_most_specific_in_list_nonempty:
  assumes "rs \<noteq> []"
  shows "\<exists>r. take_most_specific_in_list rs = Inr r"
  using assms by (cases rs) (simp_all add: take_most_specific_in_list_step)

lemma take_most_specific_in_list_single: "take_most_specific_in_list [w] = Inr w"
  by (simp add: take_most_specific_in_list_step more_specific_step_def)

lemma foldl_step_replicate:
  "foldl more_specific_step m (replicate n r) = (if n = 0 then m else more_specific_step m r)"
proof (induction n arbitrary: m)
  case 0
  show ?case by simp
next
  case (Suc n)
  have "more_specific_step (more_specific_step m r) r = more_specific_step m r"
    by (simp add: more_specific_step_def is_more_specific_than_def)
  then show ?case by (simp add: Suc.IH)
qed

lemma foldl_step_occurrences:
  "foldl more_specific_step m (occurrences rs i) = foldl more_specific_step m (indexed_rules_at rs i)"
proof (induction rs arbitrary: m)
  case Nil
  show ?case by (simp add: occurrences_def indexed_rules_at_def)
next
  case (Cons r rs)
  have occ: "occurrences (r # rs) i
               = (if is_IndexSelector (head r)
                  then replicate (count_list (get_list_of_indices (head r)) i) r else [])
                 @ occurrences rs i"
    by (simp add: occurrences_def)
  have at: "indexed_rules_at (r # rs) i
              = (if is_IndexSelector (head r) \<and> i \<in> set (get_list_of_indices (head r))
                 then [r] else []) @ indexed_rules_at rs i"
    by (simp add: indexed_rules_at_def)
  show ?case
    unfolding occ at
    by (simp add: foldl_step_replicate Cons.IH count_list_0_iff)
qed

lemma hd_occurrences:
  "occurrences rs i \<noteq> [] \<Longrightarrow> hd (occurrences rs i) = hd (indexed_rules_at rs i)"
proof (induction rs)
  case Nil
  then show ?case by (simp add: occurrences_def)
next
  case (Cons r rs)
  have occ: "occurrences (r # rs) i
               = (if is_IndexSelector (head r)
                  then replicate (count_list (get_list_of_indices (head r)) i) r else [])
                 @ occurrences rs i"
    by (simp add: occurrences_def)
  have at: "indexed_rules_at (r # rs) i
              = (if is_IndexSelector (head r) \<and> i \<in> set (get_list_of_indices (head r))
                 then [r] else []) @ indexed_rules_at rs i"
    by (simp add: indexed_rules_at_def)
  show ?case
  proof (cases "is_IndexSelector (head r) \<and> i \<in> set (get_list_of_indices (head r))")
    case True
    then have "0 < count_list (get_list_of_indices (head r)) i"
      using count_list_0_iff [of "get_list_of_indices (head r)" i] by auto
    then obtain n where "count_list (get_list_of_indices (head r)) i = Suc n"
      by (cases "count_list (get_list_of_indices (head r)) i") simp_all
    then show ?thesis using True unfolding occ at by simp
  next
    case False
    then have o: "occurrences (r # rs) i = occurrences rs i"
      unfolding occ by (auto simp: count_list_0_iff)
    have a: "indexed_rules_at (r # rs) i = indexed_rules_at rs i"
      using False unfolding at by auto
    show ?thesis using Cons unfolding o a by simp
  qed
qed

lemma occurrences_empty_iff: "occurrences rs i = [] \<longleftrightarrow> indexed_rules_at rs i = []"
  using set_occurrences [of rs i] by (metis set_empty)

lemma take_most_specific_in_list_occurrences:
  "take_most_specific_in_list (occurrences rs i) = take_most_specific_in_list (indexed_rules_at rs i)"
proof (cases "occurrences rs i = []")
  case True
  then show ?thesis using occurrences_empty_iff [of rs i] by simp
next
  case False
  then have ne: "indexed_rules_at rs i \<noteq> []" using occurrences_empty_iff [of rs i] by simp
  have h: "hd (occurrences rs i) = hd (indexed_rules_at rs i)"
    using False by (rule hd_occurrences)
  obtain a as where o: "occurrences rs i = a # as" using False by (cases "occurrences rs i") auto
  obtain b bs where x: "indexed_rules_at rs i = b # bs" using ne by (cases "indexed_rules_at rs i") auto
  have "a = b" using h o x by simp
  then show ?thesis
    using foldl_step_occurrences [of a rs i] o x
    by (simp add: take_most_specific_in_list_step)
qed

lemma foldl_max_less: "foldl max a ys < (s::int) \<longleftrightarrow> a < s \<and> (\<forall>y \<in> set ys. y < s)"
  by (induction ys arbitrary: a) auto

lemma max_specificity_less:
  assumes "rs \<noteq> []"
  shows "\<exists>m. max_specificity rs = Inr m \<and> (m < s \<longleftrightarrow> (\<forall>r \<in> set rs. specificity r < s))"
  using assms by (cases rs) (auto simp: max_specificity_def foldl_max_less)

lemma fill_missing_result:
  assumes "dict_ok D" and "distinct idxs"
  shows "\<exists>D'. fill_missing w idxs D = Inr D' \<and> dict_ok D' \<and>
           (\<forall>i. entries D' i
                  = (if i \<in> set idxs \<and> (\<forall>r \<in> set (entries D i). specificity r < specificity w)
                     then [w] else entries D i))"
  using assms
proof (induction idxs arbitrary: D)
  case Nil
  then show ?case by simp
next
  case (Cons idx idxs)
  have d: "idx \<notin> set idxs" "distinct idxs" using Cons.prems(2) by simp_all
  define cond where "cond = (\<forall>r \<in> set (entries D idx). specificity r < specificity w)"
  define D1 where "D1 = (if cond then dict_set idx [w] D else D)"
  have ok1: "dict_ok D1"
    using Cons.prems(1) by (simp add: D1_def dict_ok_dict_set)
  have e1: "entries D1 i = (if i = idx \<and> cond then [w] else entries D i)" for i
    by (simp add: D1_def entries_dict_set)
  have step: "fill_missing w (idx # idxs) D = fill_missing w idxs D1"
  proof (cases "entries D idx = []")
    case True
    then have "map_of D idx = None" "cond"
      using dict_ok_map_of [OF Cons.prems(1), of idx] by (simp_all add: cond_def)
    then show ?thesis by (simp add: D1_def)
  next
    case False
    then have m: "map_of D idx = Some (entries D idx)"
      using dict_ok_map_of [OF Cons.prems(1), of idx] by simp
    obtain mx where mx: "max_specificity (entries D idx) = Inr mx"
      "mx < specificity w \<longleftrightarrow> cond"
      using max_specificity_less [OF False, of "specificity w"] by (auto simp: cond_def)
    show ?thesis using m mx by (simp add: D1_def)
  qed
  obtain D' where D': "fill_missing w idxs D1 = Inr D'" "dict_ok D'"
    "\<And>i. entries D' i
            = (if i \<in> set idxs \<and> (\<forall>r \<in> set (entries D1 i). specificity r < specificity w)
               then [w] else entries D1 i)"
    using Cons.IH [OF ok1 d(2)] by blast
  have "entries D' i
          = (if i \<in> set (idx # idxs) \<and> (\<forall>r \<in> set (entries D i). specificity r < specificity w)
             then [w] else entries D i)" for i
  proof (cases "i = idx")
    case True
    then have "entries D' i = entries D1 idx" using d(1) by (simp add: D'(3))
    then show ?thesis using True by (simp add: e1 cond_def)
  next
    case False
    then have "entries D1 i = entries D i" by (simp add: e1)
    then show ?thesis using False by (simp add: D'(3))
  qed
  then show ?case using step D'(1,2) by simp
qed

lemma most_specific_per_index_result:
  assumes "dict_ok D"
  shows "\<exists>M. most_specific_per_index D = Inr M \<and> map fst M = map fst D \<and>
           (\<forall>i r. map_of M i = Some r
                    \<longleftrightarrow> entries D i \<noteq> [] \<and> take_most_specific_in_list (entries D i) = Inr r)"
  using assms
proof (induction D)
  case Nil
  then show ?case by (simp add: entries_def)
next
  case (Cons a D)
  obtain k xs where a: "a = (k, xs)" by (cases a)
  have ok: "dict_ok D" and ne: "xs \<noteq> []" and fresh: "k \<notin> fst ` set D"
    using Cons.prems a by (auto simp: dict_ok_def)
  obtain r0 where r0: "take_most_specific_in_list xs = Inr r0"
    using take_most_specific_in_list_nonempty [OF ne] by blast
  obtain M where M: "most_specific_per_index D = Inr M" "map fst M = map fst D"
    "\<And>i r. map_of M i = Some r
             \<longleftrightarrow> entries D i \<noteq> [] \<and> take_most_specific_in_list (entries D i) = Inr r"
    using Cons.IH [OF ok] by blast
  have e: "entries (a # D) i = (if i = k then xs else entries D i)" for i
    by (simp add: a entries_def)
  have "most_specific_per_index (a # D) = Inr ((k, r0) # M)"
    by (simp add: a r0 M(1))
  moreover have "map fst ((k, r0) # M) = map fst (a # D)"
    by (simp add: a M(2))
  moreover have "map_of ((k, r0) # M) i = Some r
      \<longleftrightarrow> entries (a # D) i \<noteq> [] \<and> take_most_specific_in_list (entries (a # D) i) = Inr r" for i r
    using ne r0 by (auto simp: e M(3))
  ultimately show ?case by blast
qed

lemma last_sort_Max:
  fixes xs :: "nat list"
  assumes "xs \<noteq> []"
  shows "last (sort xs) = Max (set xs)"
proof -
  have ne: "sort xs \<noteq> []" using assms by (metis length_sort length_0_conv)
  then have "sorted (butlast (sort xs) @ [last (sort xs)])" by simp
  then have "\<forall>x \<in> set (butlast (sort xs)). x \<le> last (sort xs)"
    unfolding sorted_append by simp
  moreover have "set (sort xs) = insert (last (sort xs)) (set (butlast (sort xs)))"
    using ne by (metis append_butlast_last_id list.simps(15) rotate1.simps(2) set_rotate1)
  ultimately have le: "\<forall>x \<in> set xs. x \<le> last (sort xs)" by auto
  have "last (sort xs) \<in> set xs" using ne last_in_set [OF ne] by simp
  then show ?thesis using le by (intro Max_eqI [symmetric]) auto
qed



lemma values_at_error:
  assumes "values_at gv c M idxs = Inl e"
  shows "e = KeyError \<or> (\<exists>i r. map_of M i = Some r \<and> gv r c = Inl e)"
  using assms
proof (induction idxs)
  case Nil
  then show ?case by simp
next
  case (Cons i idxs)
  then show ?case by (auto split: option.splits sum.splits)
qed



lemma pick_positions_error:
  "pick_positions M idxs vs = Inl e \<Longrightarrow> e = KeyError \<or> e = IndexError \<or> e = TypeError"
proof (induction idxs arbitrary: vs)
  case Nil
  then show ?case by simp
next
  case (Cons i idxs)
  have g: "py_getitem v j = Inl e' \<Longrightarrow> e' = KeyError \<or> e' = IndexError \<or> e' = TypeError"
    for v j e' by (cases v) (auto split: if_splits)
  from Cons show ?case
    by (auto split: option.splits sum.splits if_splits dest: g)
qed

subsection \<open>The resolution of one key\<close>

lemma covered_iff:
  "i \<in> covered rs v \<longleftrightarrow> indexed_rules_at rs i \<noteq> [] \<or> i < length (broadcast_values v)"
  by (auto simp: covered_def indexed_rules_at_def filter_empty_conv)


lemma indexed_resolution:
  assumes w: "take_most_specific_in_list (non_indexed_rules rs) = Inr w"
    and v: "gv w c = Inr v"
    and any: "\<exists>r \<in> set rs. is_IndexSelector (head r)"
  shows "\<exists>D M. dict_ok D \<and>
           (\<forall>i. entries D i
                  = (if i < length (broadcast_values v) \<and>
                        (\<forall>r \<in> set (indexed_rules_at rs i). specificity r < specificity w)
                     then [w] else occurrences rs i)) \<and>
           map fst M = map fst D \<and>
           (\<forall>i r. map_of M i = Some r
                    \<longleftrightarrow> entries D i \<noteq> [] \<and> take_most_specific_in_list (entries D i) = Inr r) \<and>
           most_specific_for_key_and_index gv c k rs = resolve_positions gv c k D M"
proof -
  obtain N a D0 where split: "split_indexed rs ([], False, []) = (N, a, D0)"
    by (cases "split_indexed rs ([], False, [])")
  have N: "N = filter (\<lambda>r. \<not> is_IndexSelector (head r)) rs"
    using split_indexed_noidx [of rs "([], False, [])"] split by simp
  have a: "a" using split_indexed_any [of rs "([], False, [])"] split any by simp
  have e0: "entries D0 i = occurrences rs i" for i
    using split_indexed_entries [of rs "([], False, [])" i] split by (simp add: entries_def)
  have ok0: "dict_ok D0"
    using split_indexed_ok [of "([], False, [])" rs] split by (simp add: dict_ok_def)
  have w': "take_most_specific_in_list (if length N = 0 then [least_specific_rule] else N) = Inr w"
    using w by (auto simp: non_indexed_rules_def N split: if_splits)
  obtain D where D: "fill_missing w [0 ..< length (broadcast_values v)] D0 = Inr D" "dict_ok D"
    "\<And>i. entries D i
            = (if i \<in> set [0 ..< length (broadcast_values v)] \<and>
                  (\<forall>r \<in> set (entries D0 i). specificity r < specificity w)
               then [w] else entries D0 i)"
    using fill_missing_result [OF ok0, of "[0 ..< length (broadcast_values v)]" w] by auto
  obtain M where M: "most_specific_per_index D = Inr M" "map fst M = map fst D"
    "\<And>i r. map_of M i = Some r
             \<longleftrightarrow> entries D i \<noteq> [] \<and> take_most_specific_in_list (entries D i) = Inr r"
    using most_specific_per_index_result [OF D(2)] by blast
  have eD: "entries D i
              = (if i < length (broadcast_values v) \<and>
                    (\<forall>r \<in> set (indexed_rules_at rs i). specificity r < specificity w)
                 then [w] else occurrences rs i)" for i
    by (simp add: D(3) e0 set_occurrences)
  have fm: "fill_missing w
              [0 ..< length (if \<not> is_list_or_tuple v then [v] else items v)] D0 = Inr D"
    using D(1) by (simp add: broadcast_values_def)
  have "most_specific_for_key_and_index gv c k rs = resolve_positions gv c k D M"
    unfolding most_specific_for_key_and_index_def split resolve_positions_def
    using w' v a fm M(1) by (simp add: Let_def)
  then show ?thesis using D(2) eD M(2,3) by blast
qed

lemma resolution_keys:
  assumes "dict_ok D"
    and "\<And>i. entries D i
            = (if i < length (broadcast_values v) \<and>
                  (\<forall>r \<in> set (indexed_rules_at rs i). specificity r < specificity w)
               then [w] else occurrences rs i)"
  shows "set (sort (map fst D)) = covered rs v" and "distinct (sort (map fst D))"
proof -
  have "entries D i \<noteq> [] \<longleftrightarrow> i \<in> covered rs v" for i
  proof (cases "i < length (broadcast_values v) \<and>
                  (\<forall>r \<in> set (indexed_rules_at rs i). specificity r < specificity w)")
    case True
    then show ?thesis by (simp add: assms(2) covered_iff)
  next
    case False
    then have e: "entries D i = occurrences rs i" using assms(2) [of i] by auto
    show ?thesis
    proof (cases "i < length (broadcast_values v)")
      case True
      then obtain r where "r \<in> set (indexed_rules_at rs i)" using False by auto
      then have "indexed_rules_at rs i \<noteq> []" by auto
      then show ?thesis using e True by (simp add: covered_iff occurrences_empty_iff)
    next
      case False
      then show ?thesis using e by (simp add: covered_iff occurrences_empty_iff)
    qed
  qed
  then have "{i. entries D i \<noteq> []} = covered rs v" by auto
  then show "set (sort (map fst D)) = covered rs v"
    using dict_ok_keys [OF assms(1)] by simp
  show "distinct (sort (map fst D))"
    using assms(1) by (simp add: dict_ok_def)
qed


lemma resolution_rule_source:
  assumes eD: "\<And>i. entries D i
            = (if i < length (broadcast_values v) \<and>
                  (\<forall>r \<in> set (indexed_rules_at rs i). specificity r < specificity w)
               then [w] else occurrences rs i)"
    and M: "\<And>i r. map_of M i = Some r
             \<longleftrightarrow> entries D i \<noteq> [] \<and> take_most_specific_in_list (entries D i) = Inr r"
    and r: "map_of M i = Some r"
  shows "(i < length (broadcast_values v) \<and>
          (\<forall>q \<in> set (indexed_rules_at rs i). specificity q < specificity w) \<and> r = w) \<or>
         (\<not> (i < length (broadcast_values v) \<and>
             (\<forall>q \<in> set (indexed_rules_at rs i). specificity q < specificity w)) \<and>
          take_most_specific_in_list (indexed_rules_at rs i) = Inr r \<and>
          r \<in> set (indexed_rules_at rs i))"
proof (cases "i < length (broadcast_values v) \<and>
                (\<forall>q \<in> set (indexed_rules_at rs i). specificity q < specificity w)")
  case True
  then have "entries D i = [w]" using eD [of i] by simp
  then have "r = w" using M [of i r] r by (simp add: take_most_specific_in_list_single)
  then show ?thesis using True by simp
next
  case False
  then have "entries D i = occurrences rs i" using eD [of i] by auto
  then have t: "take_most_specific_in_list (indexed_rules_at rs i) = Inr r"
    using M [of i r] r by (simp add: take_most_specific_in_list_occurrences)
  then have "r \<in> set (indexed_rules_at rs i)" by (rule take_most_specific_in_list_mem)
  then show ?thesis using False t by simp
qed

lemmas example_defs =
  get_defs sel_defs ConfigRule_def ConfigRuleDefault_def least_specific_rule_def
  non_indexed_rules_def max_specificity_def covered_def indexed_rules_at_def
  broadcast_values_def Let_def upt_conv_Cons

text \<open>
  C9: in the indexed resolution of a key, once the rules are split and the value of the
  non-indexed winner is known, the assertion on missing indices fails exactly when some
  index below the greatest covered position is covered neither by an index-specific rule
  nor by the broadcast, and it then reports these indices with the key. (The positions
  are not empty, and no rule's own value lookup raises an assertion error.) With
  index-specific rules at 0 and 2 only, it fails with the missing index 1.
\<close>

theorem gap_assertion:
  assumes w: "take_most_specific_in_list (non_indexed_rules rs) = Inr w"
    and v: "gv w c = Inr v"
    and any: "\<exists>r \<in> set rs. is_IndexSelector (head r)"
    and ne: "covered rs v \<noteq> {}"
    and nested: "\<forall>r \<in> set rs. \<forall>m k'. gv r c \<noteq> Inl (AssertionError m k')"
  shows "((\<exists>m k'. most_specific_for_key_and_index gv c k rs = Inl (AssertionError m k'))
            \<longleftrightarrow> (\<exists>i < Max (covered rs v). i \<notin> covered rs v)) \<and>
         ((\<exists>i < Max (covered rs v). i \<notin> covered rs v) \<longrightarrow>
            most_specific_for_key_and_index gv c k rs
              = Inl (AssertionError
                       (filter (\<lambda>i. i \<notin> covered rs v) [0 ..< Max (covered rs v)]) k))"
proof -
  obtain D M where ok: "dict_ok D"
    and eD: "\<And>i. entries D i
            = (if i < length (broadcast_values v) \<and>
                  (\<forall>r \<in> set (indexed_rules_at rs i). specificity r < specificity w)
               then [w] else occurrences rs i)"
    and M: "\<And>i r. map_of M i = Some r
             \<longleftrightarrow> entries D i \<noteq> [] \<and> take_most_specific_in_list (entries D i) = Inr r"
    and res: "most_specific_for_key_and_index gv c k rs = resolve_positions gv c k D M"
    using indexed_resolution [where gv = gv and c = c and k = k, OF w v any] by blast
  have keys: "set (sort (map fst D)) = covered rs v"
    using resolution_keys(1) [OF ok eD] by simp
  have keys': "fst ` set D = covered rs v"
    using keys by simp
  have "D \<noteq> []"
  proof
    assume "D = []"
    then have "covered rs v = {}" using keys by simp
    then show False using ne by simp
  qed
  then have nonempty: "sort (map fst D) \<noteq> []" "map fst D \<noteq> []"
    by (metis length_sort length_0_conv map_is_Nil_conv, simp)
  have "last (sort (map fst D)) = Max (set (map fst D))"
    using nonempty(2) by (rule last_sort_Max)
  then have last: "last (sort (map fst D)) = Max (covered rs v)"
    using keys by simp
  define missing where
    "missing = filter (\<lambda>i. i \<notin> covered rs v) [0 ..< Max (covered rs v)]"
  have gap: "missing \<noteq> [] \<longleftrightarrow> (\<exists>i < Max (covered rs v). i \<notin> covered rs v)"
    by (auto simp: missing_def filter_empty_conv)
  have fires: "most_specific_for_key_and_index gv c k rs = Inl (AssertionError missing k)"
    if "missing \<noteq> []"
    using that nonempty(1) by (simp add: res resolve_positions_def keys' last missing_def)
  have passes: "most_specific_for_key_and_index gv c k rs \<noteq> Inl (AssertionError m k')"
    if none: "missing = []" for m k'
  proof
    assume a: "most_specific_for_key_and_index gv c k rs = Inl (AssertionError m k')"
    have rest: "(case values_at gv c M (sort (map fst D)) of
              Inl e \<Rightarrow> Inl e
            | Inr vals \<Rightarrow>
                (case pick_positions M (sort (map fst D)) vals of
                   Inl e \<Rightarrow> Inl e
                 | Inr out \<Rightarrow> Inr (VList out))) = Inl (AssertionError m k')"
      using a none nonempty(1) by (simp add: res resolve_positions_def keys' last missing_def)
    show False
    proof (cases "values_at gv c M (sort (map fst D))")
      case (Inl e)
      then have e: "e = AssertionError m k'" using rest by simp
      then obtain i r where r: "map_of M i = Some r" "gv r c = Inl (AssertionError m k')"
        using values_at_error [OF Inl] by auto
      have "r = w \<or> r \<in> set (indexed_rules_at rs i)"
        using resolution_rule_source [OF eD M r(1)] by blast
      then show False
      proof
        assume "r = w"
        then show False using r(2) v by simp
      next
        assume "r \<in> set (indexed_rules_at rs i)"
        then have "r \<in> set rs" by (simp add: indexed_rules_at_def)
        then show False using nested r(2) by blast
      qed
    next
      case (Inr vals)
      then have "\<exists>e. pick_positions M (sort (map fst D)) vals = Inl e \<and> e = AssertionError m k'"
        using rest by (auto split: sum.splits)
      then show False using pick_positions_error by blast
    qed
  qed
  show ?thesis
    using gap fires passes unfolding missing_def by (metis (no_types, lifting))
qed

theorem gap_assertion_witness:
  "most_specific_for_key_and_index (get_value 0) gap_example ''layers'' (rules_of gap_example)
     = Inl (AssertionError [1] ''layers'') \<and>
   covered (rules_of gap_example) (VList []) = {0, 2} \<and>
   get 0 gap_example [ClassSelector ''a'', ClassSelector ''layers''] None False
     = Inl (AssertionError [1] ''layers'')"
proof -
  have cov: "covered (rules_of gap_example) (VList []) = {0, 2}"
    by (auto simp: gap_example_def example_defs)
  have get: "get 0 gap_example [ClassSelector ''a'', ClassSelector ''layers''] None False
     = Inl (AssertionError [1] ''layers'')"
    by (simp add: gap_example_def example_defs)
  have w: "take_most_specific_in_list (non_indexed_rules (rules_of gap_example))
             = Inr least_specific_rule"
    by (simp add: gap_example_def example_defs)
  have v: "get_value 0 least_specific_rule gap_example = Inr (VList [])"
    by (simp add: least_specific_rule_def ConfigRule_def)
  have any: "\<exists>r \<in> set (rules_of gap_example). is_IndexSelector (head r)"
    by (simp add: gap_example_def example_defs)
  have ne: "covered (rules_of gap_example) (VList []) \<noteq> {}"
    using cov by simp
  have nested: "\<forall>r \<in> set (rules_of gap_example). \<forall>m k'.
                  get_value 0 r gap_example \<noteq> Inl (AssertionError m k')"
    by (simp add: gap_example_def ConfigRule_def)
  have gap: "\<exists>i < Max (covered (rules_of gap_example) (VList [])).
               i \<notin> covered (rules_of gap_example) (VList [])"
    unfolding cov by (intro exI [of _ 1]) simp
  have "most_specific_for_key_and_index (get_value 0) gap_example ''layers'' (rules_of gap_example)
          = Inl (AssertionError
                   (filter (\<lambda>i. i \<notin> covered (rules_of gap_example) (VList []))
                      [0 ..< Max (covered (rules_of gap_example) (VList []))]) ''layers'')"
    using gap_assertion [where gv = "get_value 0" and k = "''layers''", OF w v any ne nested] gap
    by blast
  then have "most_specific_for_key_and_index (get_value 0) gap_example ''layers''
               (rules_of gap_example) = Inl (AssertionError [1] ''layers'')"
    unfolding cov by (simp add: upt_conv_Cons)
  then show ?thesis using cov get by simp
qed










end
